theory Spec2Isabelle
  imports Main "HOL-Library.Multiset" "HOL-Library.Mapping" "HOL-Library.AList_Mapping"
    "HOL-Library.Sublist"
begin

section \<open>Strings\<close>

text \<open>
  A Python \<open>str\<close> is modelled as a \<open>string\<close>: a list of characters, each a code point
  below 256. \<open>len\<close> is \<open>length\<close>.  On this range \<open>str.lower\<close> maps a character to one
  character, so it is a \<open>map\<close>.
\<close>

definition is_space :: "char \<Rightarrow> bool" where
  \<comment> \<open>what \<open>\s\<close> matches and what \<open>str.strip()\<close> removes: tab, LF, VT, FF, CR,
      FS, GS, RS, US, space, NEL, no-break space\<close>
  "is_space c =
     (let n = (of_char c :: nat)
      in (9 \<le> n \<and> n \<le> 13) \<or> (28 \<le> n \<and> n \<le> 32) \<or> n = 133 \<or> n = 160)"

definition is_ascii_alpha :: "char \<Rightarrow> bool" where
  \<comment> \<open>the character class \<open>[a-zA-Z]\<close>\<close>
  "is_ascii_alpha c =
     (let n = (of_char c :: nat) in (97 \<le> n \<and> n \<le> 122) \<or> (65 \<le> n \<and> n \<le> 90))"

definition is_sentence_end :: "char \<Rightarrow> bool" where
  \<comment> \<open>the character class \<open>[.!?]\<close>\<close>
  "is_sentence_end c = (c = CHR ''.'' \<or> c = CHR ''!'' \<or> c = CHR ''?'')"

definition lower_char :: "char \<Rightarrow> char" where
  "lower_char c =
     (let n = (of_char c :: nat)
      in if (65 \<le> n \<and> n \<le> 90) \<or> (192 \<le> n \<and> n \<le> 222 \<and> n \<noteq> 215)
         then char_of (n + 32) else c)"

definition lower :: "string \<Rightarrow> string" where
  "lower s = map lower_char s"

definition strip :: "string \<Rightarrow> string" where
  \<comment> \<open>\<open>str.strip()\<close>: leading and trailing whitespace removed\<close>
  "strip s = rev (dropWhile is_space (rev (dropWhile is_space s)))"

fun join :: "string \<Rightarrow> string list \<Rightarrow> string" where
  \<comment> \<open>\<open>sep.join(parts)\<close>\<close>
  "join sep [] = []"
| "join sep [x] = x"
| "join sep (x # y # ys) = x @ sep @ join sep (y # ys)"

section \<open>Tokenizer\<close>

definition STOP_WORDS :: "string list" where
  "STOP_WORDS =
     [''a'', ''about'', ''above'', ''after'', ''again'', ''against'', ''all'', ''am'', ''an'',
      ''and'', ''any'', ''are'', ''as'', ''at'', ''be'', ''because'', ''been'', ''before'',
      ''being'', ''below'', ''between'', ''both'', ''but'', ''by'', ''could'', ''did'', ''do'',
      ''does'', ''doing'', ''down'', ''during'', ''each'', ''few'', ''for'', ''from'',
      ''further'', ''had'', ''has'', ''have'', ''having'', ''he'', ''her'', ''here'', ''hers'',
      ''herself'', ''him'', ''himself'', ''his'', ''how'', ''i'', ''if'', ''in'', ''into'',
      ''is'', ''it'', ''its'', ''itself'', ''just'', ''me'', ''more'', ''most'', ''my'',
      ''myself'', ''no'', ''nor'', ''not'', ''now'', ''of'', ''off'', ''on'', ''once'',
      ''only'', ''or'', ''other'', ''our'', ''ours'', ''ourselves'', ''out'', ''over'', ''own'',
      ''same'', ''she'', ''should'', ''so'', ''some'', ''such'', ''than'', ''that'', ''the'',
      ''their'', ''theirs'', ''them'', ''themselves'', ''then'', ''there'', ''these'', ''they'',
      ''this'', ''those'', ''through'', ''to'', ''too'', ''under'', ''until'', ''up'', ''very'',
      ''was'', ''we'', ''were'', ''what'', ''when'', ''where'', ''which'', ''while'', ''who'',
      ''whom'', ''why'', ''will'', ''with'', ''you'', ''your'', ''yours'', ''yourself'',
      ''yourselves'']"

function findall_alpha :: "string \<Rightarrow> string list" where
  \<comment> \<open>\<open>re.findall(r"[a-zA-Z]+", s)\<close>: the maximal runs of letters, left to right\<close>
  "findall_alpha [] = []"
| "findall_alpha (c # cs) =
     (if is_ascii_alpha c
      then (c # takeWhile is_ascii_alpha cs) # findall_alpha (dropWhile is_ascii_alpha cs)
      else findall_alpha cs)"
  by pat_completeness auto
termination
  by (relation "measure length") (auto simp: length_dropWhile_le less_Suc_eq_le)

definition tokenize_sentence :: "string \<Rightarrow> string list" where
  "tokenize_sentence sentence =
     (let words = findall_alpha (lower sentence)
      in filter (\<lambda>word. word \<notin> set STOP_WORDS) words)"

section \<open>Summarizer\<close>

datatype error = ScraperError string | ValueError

definition NOT_ENOUGH :: string where
  "NOT_ENOUGH = ''Not enough substantial sentences were found to build a summary.''"

definition NO_FREQUENCIES :: string where
  "NO_FREQUENCIES = ''Failed to compute word frequencies for summarization.''"

text \<open>
  A \<open>Counter\<close> is a dictionary from words to integers whose lookup gives 0 for a word
  that is not a key.
\<close>

type_synonym counter = "(string, int) mapping"

definition counter_get :: "counter \<Rightarrow> string \<Rightarrow> int" where
  "counter_get word_freq word = Mapping.lookup_default 0 word_freq word"

definition counter_incr :: "string \<Rightarrow> counter \<Rightarrow> counter" where
  \<comment> \<open>\<open>word_freq[word] += 1\<close>\<close>
  "counter_incr word word_freq = Mapping.update word (counter_get word_freq word + 1) word_freq"

text \<open>
  The first loop over \<open>filtered\<close>.  The inner loop runs over a Python \<open>set\<close>, whose
  iteration order is not fixed by the language; the order is the parameter \<open>iter\<close>, which
  lists the distinct words of \<open>words\<close> in some order.
\<close>

definition count_sentence :: "(string list \<Rightarrow> string list) \<Rightarrow> string \<Rightarrow> counter \<Rightarrow> counter" where
  "count_sentence iter sentence word_freq =
     (let words = tokenize_sentence sentence
      in if words = [] then word_freq
         else fold counter_incr (iter words) word_freq)"

definition build_word_freq :: "(string list \<Rightarrow> string list) \<Rightarrow> string list \<Rightarrow> counter" where
  "build_word_freq iter filtered = fold (count_sentence iter) filtered Mapping.empty"

definition sentence_score :: "counter \<Rightarrow> string \<Rightarrow> int" where
  \<comment> \<open>\<open>sum(word_freq[word] for word in words)\<close>\<close>
  "sentence_score word_freq sentence =
     sum_list (map (counter_get word_freq) (tokenize_sentence sentence))"

definition build_scores :: "counter \<Rightarrow> string list \<Rightarrow> (string, int) mapping" where
  \<comment> \<open>the second loop: \<open>sentence_scores[sentence] = ...\<close>\<close>
  "build_scores word_freq filtered =
     fold (\<lambda>sentence scores. Mapping.update sentence (sentence_score word_freq sentence) scores)
       filtered Mapping.empty"

definition scores_get :: "(string, int) mapping \<Rightarrow> string \<Rightarrow> int" where
  \<comment> \<open>\<open>sentence_scores.get\<close> as the sort key.  It is only applied to elements of
      \<open>filtered\<close>, which are all keys (lemma \<open>scores_get_filtered\<close>).\<close>
  "scores_get scores sentence =
     (case Mapping.lookup scores sentence of Some v \<Rightarrow> v | None \<Rightarrow> 0)"

definition nlargest :: "int \<Rightarrow> 'a list \<Rightarrow> ('a \<Rightarrow> int) \<Rightarrow> 'a list" where
  \<comment> \<open>\<open>heapq.nlargest(n, xs, key)\<close>, which is \<open>sorted(xs, key=key, reverse=True)[:n]\<close>:
      a stable sort by descending key, cut to \<open>n\<close> elements (none when \<open>n \<le> 0\<close>)\<close>
  "nlargest n xs key = take (nat n) (sort_key (\<lambda>x. - key x) xs)"

fun index :: "'a list \<Rightarrow> 'a \<Rightarrow> nat option" where
  \<comment> \<open>\<open>xs.index(x)\<close>: the first position of \<open>x\<close>; \<open>None\<close> is Python's ValueError\<close>
  "index [] x = None"
| "index (y # ys) x = (if y = x then Some 0 else map_option Suc (index ys x))"

definition sort_by_index :: "string list \<Rightarrow> string list \<Rightarrow> error + string list" where
  \<comment> \<open>\<open>top.sort(key=lambda s: sentences.index(s))\<close>: the keys are computed first, then
      the list is sorted by them, stably\<close>
  "sort_by_index sentences top_sentences =
     (case those (map (index sentences) top_sentences) of
        None \<Rightarrow> Inl ValueError
      | Some ks \<Rightarrow> Inr (map snd (sort_key fst (zip ks top_sentences))))"

definition summarize_sentences_iter ::
  "(string list \<Rightarrow> string list) \<Rightarrow> string list \<Rightarrow> int \<Rightarrow> int \<Rightarrow> error + string list" where
  "summarize_sentences_iter iter sentences max_sentences min_chars =
     (let filtered = filter (\<lambda>s. int (length s) \<ge> min_chars) sentences
      in if filtered = [] then Inl (ScraperError NOT_ENOUGH)
         else
           let word_freq = build_word_freq iter filtered
           in if Mapping.is_empty word_freq then Inl (ScraperError NO_FREQUENCIES)
              else
                let sentence_scores = build_scores word_freq filtered;
                    top_sentences = nlargest max_sentences filtered (scores_get sentence_scores)
                in sort_by_index sentences top_sentences)"

definition summarize_sentences :: "string list \<Rightarrow> int \<Rightarrow> int \<Rightarrow> error + string list" where
  \<comment> \<open>the set of a sentence's words is visited in the order of first occurrence\<close>
  "summarize_sentences = summarize_sentences_iter remdups"


section \<open>Sentence segmenter\<close>

fun cons_first :: "'a \<Rightarrow> 'a list list \<Rightarrow> 'a list list" where
  \<comment> \<open>a character put in front of the first piece\<close>
  "cons_first c [] = [[c]]"
| "cons_first c (p # ps) = (c # p) # ps"

function re_split_endings :: "bool \<Rightarrow> string \<Rightarrow> string list" where
  \<comment> \<open>\<open>re.compile(r"(?<=[.!?])\s+").split(text)\<close>, scanning left to right.  The flag
      says whether the character before the current position is one of \<open>.!?\<close> (the
      lookbehind); a match is a maximal run of whitespace at such a position, and after a
      match the character before is whitespace.\<close>
  "re_split_endings after_end [] = [[]]"
| "re_split_endings after_end (c # cs) =
     (if after_end \<and> is_space c
      then [] # re_split_endings False (dropWhile is_space cs)
      else cons_first c (re_split_endings (is_sentence_end c) cs))"
  by pat_completeness auto
termination
  by (relation "measure (\<lambda>(b, s). length s)") (auto simp: length_dropWhile_le less_Suc_eq_le)

definition split_sentences :: "string \<Rightarrow> string list" where
  "split_sentences text =
     (let candidates = re_split_endings False text
      in map strip (filter (\<lambda>candidate. strip candidate \<noteq> []) candidates))"

section \<open>Content extractor\<close>

text \<open>
  The HTML parser (lxml behind BeautifulSoup) is a library outside the repository; it is
  the parameter \<open>parse\<close> of \<open>extract_sentences\<close>, and the properties hold for every
  parser.  A parse tree has text nodes, nodes of other string kinds that \<open>get_text\<close>
  leaves out (comments and the like), and elements with a tag name and children.  The root
  is the element that stands for the document.
\<close>

datatype node = Text string | Comment string | Element string "node list"

record PageContent =
  title :: string
  sentences :: "string list"

definition PageContent_text :: "PageContent \<Rightarrow> string" where
  \<comment> \<open>the property \<open>text\<close>\<close>
  "PageContent_text page = join '' '' (sentences page)"

fun descendants :: "node \<Rightarrow> node list" where
  \<comment> \<open>all nodes below a node, in document order\<close>
  "descendants (Element name children) = concat (map (\<lambda>c. c # descendants c) children)"
| "descendants (Text s) = []"
| "descendants (Comment s) = []"

fun is_tag :: "string list \<Rightarrow> node \<Rightarrow> bool" where
  "is_tag names (Element name children) = (name \<in> set names)"
| "is_tag names (Text s) = False"
| "is_tag names (Comment s) = False"

definition find_all :: "string list \<Rightarrow> node \<Rightarrow> node list" where
  \<comment> \<open>\<open>tag.find_all(names)\<close>, also written \<open>tag(names)\<close>\<close>
  "find_all names nd = filter (is_tag names) (descendants nd)"

definition find_tag :: "string \<Rightarrow> node \<Rightarrow> node option" where
  \<comment> \<open>\<open>tag.find(name)\<close>: the first match, or \<open>None\<close>\<close>
  "find_tag name nd = (case find_all [name] nd of [] \<Rightarrow> None | t # ts \<Rightarrow> Some t)"

fun decompose_all :: "string list \<Rightarrow> node \<Rightarrow> node" where
  \<comment> \<open>\<open>for tag in soup(names): tag.decompose()\<close>: every element with one of the names
      is removed from the tree, with all it contains\<close>
  "decompose_all names (Element name children) =
     Element name (map (decompose_all names) (filter (\<lambda>c. \<not> is_tag names c) children))"
| "decompose_all names (Text s) = Text s"
| "decompose_all names (Comment s) = Comment s"

fun node_strings :: "node \<Rightarrow> string list" where
  "node_strings (Text s) = [s]"
| "node_strings (Comment s) = []"
| "node_strings (Element name children) = []"

definition all_strings :: "bool \<Rightarrow> node \<Rightarrow> string list" where
  \<comment> \<open>the strings \<open>get_text\<close> collects: the text nodes below the node, each stripped and
      dropped when empty if \<open>strip=True\<close>\<close>
  "all_strings strip_flag nd =
     (let strs = concat (map node_strings (descendants nd))
      in if strip_flag then filter (\<lambda>s. s \<noteq> []) (map strip strs) else strs)"

definition get_text :: "string \<Rightarrow> bool \<Rightarrow> node \<Rightarrow> string" where
  "get_text separator strip_flag nd = join separator (all_strings strip_flag nd)"

definition node_text :: "node \<Rightarrow> string" where
  \<comment> \<open>the property \<open>tag.text\<close>\<close>
  "node_text nd = get_text [] False nd"

function collapse_ws :: "string \<Rightarrow> string" where
  \<comment> \<open>\<open>re.sub(r"\s+", " ", s)\<close>\<close>
  "collapse_ws [] = []"
| "collapse_ws (c # cs) =
     (if is_space c then CHR '' '' # collapse_ws (dropWhile is_space cs)
      else c # collapse_ws cs)"
  by pat_completeness auto
termination
  by (relation "measure length") (auto simp: length_dropWhile_le less_Suc_eq_le)

definition NON_CONTENT_TAGS :: "string list" where
  "NON_CONTENT_TAGS = [''script'', ''style'', ''noscript'', ''header'', ''footer'', ''form'']"

definition UNTITLED :: string where
  "UNTITLED = ''Untitled page''"

definition UNABLE :: string where
  "UNABLE = ''Unable to extract textual content from the page.''"

definition extract_sentences :: "(string \<Rightarrow> node) \<Rightarrow> string \<Rightarrow> error + PageContent" where
  "extract_sentences parse html =
     (let soup = decompose_all NON_CONTENT_TAGS (parse html);
          title_tag = find_tag ''title'' soup;
          page_title = (case title_tag of
                     Some t \<Rightarrow> if node_text t \<noteq> [] then strip (node_text t) else UNTITLED
                   | None \<Rightarrow> UNTITLED);
          paragraphs = map (get_text '' '' True) (find_all [''p''] soup);
          raw_text = (if paragraphs = [] then get_text '' '' False soup
                      else join '' '' paragraphs);
          cleaned = strip (collapse_ws raw_text)
      in if cleaned = [] then Inl (ScraperError UNABLE)
         else Inr \<lparr>title = page_title, sentences = split_sentences cleaned\<rparr>)"

section \<open>Notions used to state the properties\<close>

text \<open>An admissible iteration order of a set of words: each word once.\<close>

definition valid_iter :: "(string list \<Rightarrow> string list) \<Rightarrow> bool" where
  "valid_iter iter = (\<forall>ws. distinct (iter ws) \<and> set (iter ws) = set ws)"

text \<open>The position that \<open>index\<close> finds, as a number.\<close>

definition first_pos :: "'a list \<Rightarrow> 'a \<Rightarrow> nat" where
  "first_pos xs x = (case index xs x of Some i \<Rightarrow> i | None \<Rightarrow> length xs)"

text \<open>The values of \<open>filtered\<close>, \<open>word_freq\<close> and \<open>top_sentences\<close> in a call.\<close>

definition filtered_of :: "string list \<Rightarrow> int \<Rightarrow> string list" where
  "filtered_of sents min_chars = filter (\<lambda>s. int (length s) \<ge> min_chars) sents"

definition word_freq_of :: "string list \<Rightarrow> int \<Rightarrow> counter" where
  "word_freq_of sents min_chars = build_word_freq remdups (filtered_of sents min_chars)"

definition top_of :: "string list \<Rightarrow> int \<Rightarrow> int \<Rightarrow> string list" where
  "top_of sents max_sentences min_chars =
     nlargest max_sentences (filtered_of sents min_chars)
       (sentence_score (word_freq_of sents min_chars))"


text \<open>
  Normalized text, as the extractor hands it to the segmenter: every whitespace character
  is a space followed by a character that is not whitespace, and the text does not begin
  with whitespace.  These are exactly the texts that cleaning leaves unchanged (lemma
  \<open>normalized_iff\<close>).
\<close>

fun well_spaced :: "string \<Rightarrow> bool" where
  "well_spaced [] = True"
| "well_spaced [c] = (\<not> is_space c)"
| "well_spaced (c # d # cs) = ((is_space c \<longrightarrow> c = CHR '' '' \<and> \<not> is_space d) \<and> well_spaced (d # cs))"

definition normalized :: "string \<Rightarrow> bool" where
  "normalized s = (well_spaced s \<and> (s \<noteq> [] \<longrightarrow> \<not> is_space (hd s)))"

text \<open>A piece that neither begins nor ends with whitespace, and text in which each
  whitespace run is one space.\<close>

definition good_piece :: "string \<Rightarrow> bool" where
  "good_piece p = (p \<noteq> [] \<and> \<not> is_space (hd p) \<and> \<not> is_space (last p))"

fun single_spaced :: "string \<Rightarrow> bool" where
  "single_spaced [] = True"
| "single_spaced [c] = (is_space c \<longrightarrow> c = CHR '' '')"
| "single_spaced (c # d # cs) =
     ((is_space c \<longrightarrow> c = CHR '' '' \<and> \<not> is_space d) \<and> single_spaced (d # cs))"


text \<open>The tree the extractor reads: the parse tree without its non-content elements.\<close>

definition soup_of :: "(string \<Rightarrow> node) \<Rightarrow> string \<Rightarrow> node" where
  "soup_of parse html = decompose_all NON_CONTENT_TAGS (parse html)"

text \<open>
  The body text in the words of the specification: the texts of the paragraph elements,
  each with its strings trimmed, joined by spaces; the text of the whole document when
  there is no paragraph element.
\<close>

definition spec_body_text :: "node \<Rightarrow> string" where
  "spec_body_text soup =
     (if \<exists>nd\<in>set (descendants soup). is_tag [''p''] nd
      then join '' '' (map (get_text '' '' True) (filter (is_tag [''p'']) (descendants soup)))
      else join '' '' (concat (map node_strings (descendants soup))))"

text \<open>A parser that answers with a given tree, to state examples on concrete trees.\<close>

definition parse_as :: "node \<Rightarrow> string \<Rightarrow> node" where
  "parse_as tree html = tree"

section \<open>The word-frequency table and the scores\<close>

lemma lookup_fold_incr:
  "distinct ws \<Longrightarrow>
   Mapping.lookup (fold counter_incr ws c) w =
     (if w \<in> set ws then Some (counter_get c w + 1) else Mapping.lookup c w)"
proof (induction ws arbitrary: c)
  case Nil
  then show ?case by simp
next
  case (Cons a ws)
  then show ?case
    by (auto simp: counter_incr_def counter_get_def Mapping.lookup_default_def Mapping.lookup_update')
qed

lemma counter_get_fold_incr:
  "distinct ws \<Longrightarrow>
   counter_get (fold counter_incr ws c) w = counter_get c w + (if w \<in> set ws then 1 else 0)"
  by (simp add: counter_get_def Mapping.lookup_default_def lookup_fold_incr)

lemma valid_iter_remdups: "valid_iter remdups"
  by (simp add: valid_iter_def)

lemma lookup_count_sentence:
  assumes "valid_iter iter"
  shows "Mapping.lookup (count_sentence iter s c) w =
     (if w \<in> set (tokenize_sentence s) then Some (counter_get c w + 1) else Mapping.lookup c w)"
  using assms by (auto simp: count_sentence_def Let_def valid_iter_def lookup_fold_incr)

lemma count_sentence_iter:
  assumes "valid_iter iter"
  shows "count_sentence iter s c = count_sentence remdups s c"
  by (rule mapping_eqI) (simp add: lookup_count_sentence assms valid_iter_remdups)

lemma build_word_freq_iter:
  assumes "valid_iter iter"
  shows "build_word_freq iter filtered = build_word_freq remdups filtered"
proof -
  have "count_sentence iter = count_sentence remdups"
    by (intro ext) (rule count_sentence_iter [OF assms])
  then show ?thesis by (simp add: build_word_freq_def)
qed

lemma counter_get_count_sentence:
  "counter_get (count_sentence remdups s c) w =
     counter_get c w + (if w \<in> set (tokenize_sentence s) then 1 else 0)"
  by (simp add: counter_get_def Mapping.lookup_default_def lookup_count_sentence valid_iter_remdups)

lemma counter_get_fold_count:
  "counter_get (fold (count_sentence remdups) ss c) w =
     counter_get c w + int (length (filter (\<lambda>s. w \<in> set (tokenize_sentence s)) ss))"
  by (induction ss arbitrary: c) (simp_all add: counter_get_count_sentence)

lemma counter_get_empty: "counter_get Mapping.empty w = 0"
  by (simp add: counter_get_def Mapping.lookup_default_empty)

lemma counter_get_build_word_freq:
  "counter_get (build_word_freq remdups filtered) w =
     int (length (filter (\<lambda>s. w \<in> set (tokenize_sentence s)) filtered))"
  by (simp add: build_word_freq_def counter_get_fold_count counter_get_empty)

lemma keys_fold_incr: "Mapping.keys (fold counter_incr ws c) = Mapping.keys c \<union> set ws"
  by (induction ws arbitrary: c) (auto simp: counter_incr_def)

lemma keys_count_sentence:
  "Mapping.keys (count_sentence remdups s c) = Mapping.keys c \<union> set (tokenize_sentence s)"
  by (auto simp: count_sentence_def Let_def keys_fold_incr)

lemma keys_fold_count:
  "Mapping.keys (fold (count_sentence remdups) ss c) =
     Mapping.keys c \<union> (\<Union>s\<in>set ss. set (tokenize_sentence s))"
  by (induction ss arbitrary: c) (auto simp: keys_count_sentence)

lemma is_empty_build_word_freq:
  "Mapping.is_empty (build_word_freq remdups filtered) \<longleftrightarrow>
     (\<forall>s\<in>set filtered. tokenize_sentence s = [])"
  by (simp add: Mapping.is_empty_def build_word_freq_def keys_fold_count)

lemma lookup_build_scores_aux:
  "Mapping.lookup (fold (\<lambda>s m. Mapping.update s (f s) m) ss m0) x =
     (if x \<in> set ss then Some (f x) else Mapping.lookup m0 x)"
  by (induction ss arbitrary: m0) (auto simp: Mapping.lookup_update')

lemma scores_get_filtered:
  "s \<in> set filtered \<Longrightarrow>
   Mapping.lookup (build_scores word_freq filtered) s = Some (sentence_score word_freq s)"
  by (simp add: build_scores_def lookup_build_scores_aux)

lemma sort_key_cong_set:
  "(\<And>x. x \<in> set xs \<Longrightarrow> f x = g x) \<Longrightarrow> sort_key f xs = sort_key g xs"
proof (induction xs)
  case Nil
  then show ?case by simp
next
  case (Cons a xs)
  have "insort_key f a ys = insort_key g a ys" if "set ys \<subseteq> set xs" for ys
    using that Cons.prems by (induction ys) auto
  with Cons show ?case by simp
qed

lemma nlargest_scores:
  "nlargest n filtered (scores_get (build_scores freq filtered)) =
   nlargest n filtered (sentence_score freq)"
  unfolding nlargest_def
  by (rule arg_cong [where f = "take (nat n)"], rule sort_key_cong_set)
     (simp add: scores_get_def scores_get_filtered)


lemma index_None_iff: "index xs x = None \<longleftrightarrow> x \<notin> set xs"
  by (induction xs) auto

lemma index_Some_nth: "index xs x = Some i \<Longrightarrow> i < length xs \<and> xs ! i = x"
  by (induction xs arbitrary: i) (auto split: if_splits)

lemma index_first_pos: "x \<in> set xs \<Longrightarrow> index xs x = Some (first_pos xs x)"
  using index_None_iff [of xs x] by (auto simp: first_pos_def split: option.splits)

lemma first_pos_nth: "x \<in> set xs \<Longrightarrow> first_pos xs x < length xs \<and> xs ! first_pos xs x = x"
  using index_first_pos index_Some_nth by fastforce

lemma first_pos_inj: "inj_on (first_pos xs) (set xs)"
  by (rule inj_onI) (metis first_pos_nth)

lemma those_index:
  "those (map (index ss) ts) =
     (if set ts \<subseteq> set ss then Some (map (first_pos ss) ts) else None)"
proof (induction ts)
  case Nil
  then show ?case by simp
next
  case (Cons t ts)
  show ?case
  proof (cases "t \<in> set ss")
    case True
    then show ?thesis using Cons by (simp add: index_first_pos)
  next
    case False
    then have "index ss t = None" by (simp add: index_None_iff)
    with False show ?thesis by simp
  qed
qed

lemma insort_key_decorate:
  "insort_key fst (f x, x) (map (\<lambda>y. (f y, y)) ys) = map (\<lambda>y. (f y, y)) (insort_key f x ys)"
  by (induction ys) auto

lemma sort_key_decorate:
  "sort_key fst (map (\<lambda>y. (f y, y)) xs) = map (\<lambda>y. (f y, y)) (sort_key f xs)"
  by (induction xs) (simp_all add: insort_key_decorate)

lemma undecorate_sort:
  "map snd (sort_key fst (zip (map f xs) xs)) = sort_key f xs"
proof -
  have "zip (map f xs) xs = map (\<lambda>y. (f y, y)) xs"
    by (induction xs) auto
  then show ?thesis by (simp add: sort_key_decorate comp_def)
qed

lemma sort_by_index_eq:
  "sort_by_index ss ts =
     (if set ts \<subseteq> set ss then Inr (sort_key (first_pos ss) ts) else Inl ValueError)"
  by (simp add: sort_by_index_def those_index undecorate_sort)

lemma set_nlargest: "set (nlargest n xs key) \<subseteq> set xs"
  unfolding nlargest_def using set_take_subset [of "nat n" "sort_key (\<lambda>x. - key x) xs"] by simp

lemma summarize_iter_eq:
  assumes "valid_iter iter"
  shows "summarize_sentences_iter iter ss n m =
     (if filtered_of ss m = [] then Inl (ScraperError NOT_ENOUGH)
      else if \<forall>s\<in>set (filtered_of ss m). tokenize_sentence s = []
      then Inl (ScraperError NO_FREQUENCIES)
      else Inr (sort_key (first_pos ss) (top_of ss n m)))"
proof -
  have sub: "set (nlargest n (filtered_of ss m) k) \<subseteq> set ss" for k
    using set_nlargest [of n "filtered_of ss m" k] by (auto simp: filtered_of_def)
  show ?thesis
    unfolding summarize_sentences_iter_def Let_def filtered_of_def [symmetric]
      build_word_freq_iter [OF assms] is_empty_build_word_freq nlargest_scores
      sort_by_index_eq top_of_def word_freq_of_def
    using sub by simp
qed

lemma summarize_eq:
  "summarize_sentences ss n m =
     (if filtered_of ss m = [] then Inl (ScraperError NOT_ENOUGH)
      else if \<forall>s\<in>set (filtered_of ss m). tokenize_sentence s = []
      then Inl (ScraperError NO_FREQUENCIES)
      else Inr (sort_key (first_pos ss) (top_of ss n m)))"
  unfolding summarize_sentences_def by (rule summarize_iter_eq [OF valid_iter_remdups])

section \<open>Selection and reordering\<close>

lemma positions_subseq:
  "sorted_wrt (<) ps \<Longrightarrow> \<forall>p\<in>set ps. p < length xs \<Longrightarrow> subseq (map ((!) xs) ps) xs"
proof (induction ps arbitrary: xs rule: rev_induct)
  case Nil
  then show ?case by simp
next
  case (snoc q qs)
  from snoc.prems have q: "q < length xs" and lt: "\<forall>p\<in>set qs. p < q" and sq: "sorted_wrt (<) qs"
    by (auto simp: sorted_wrt_append)
  have "map ((!) xs) qs = map ((!) (take q xs)) qs"
    using lt by simp
  moreover have "subseq (map ((!) (take q xs)) qs) (take q xs)"
    using snoc.IH [OF sq, of "take q xs"] lt q by simp
  moreover have "subseq [xs ! q] (drop q xs)"
    using q by (simp add: subseq_singleton_left in_set_conv_nth) (metis add.right_neutral le_add_diff_inverse less_imp_le_nat nat_add_left_cancel_less nth_drop zero_less_diff)
  ultimately have "subseq (map ((!) xs) qs @ [xs ! q]) (take q xs @ drop q xs)"
    using list_emb_append_mono by metis
  then show ?case by simp
qed

lemma summarize_Inr:
  assumes "summarize_sentences ss n m = Inr out"
  shows "out = sort_key (first_pos ss) (top_of ss n m)"
    and "filtered_of ss m \<noteq> []"
    and "\<exists>s\<in>set (filtered_of ss m). tokenize_sentence s \<noteq> []"
  using assms by (auto simp: summarize_eq split: if_splits)

lemma set_top_of: "set (top_of ss n m) \<subseteq> set (filtered_of ss m)"
  unfolding top_of_def by (rule set_nlargest)

lemma set_filtered_of: "set (filtered_of ss m) \<subseteq> set ss"
  by (auto simp: filtered_of_def)

lemma mset_top_of: "mset (top_of ss n m) \<subseteq># mset (filtered_of ss m)"
proof -
  have "mset (take k xs) \<subseteq># mset xs" for k and xs :: "string list"
    by (metis append_take_drop_id mset_append mset_subset_eq_add_left)
  from this [of "nat n" "sort_key (\<lambda>x. - sentence_score (word_freq_of ss m) x) (filtered_of ss m)"]
  show ?thesis by (simp add: top_of_def nlargest_def)
qed

lemma length_top_of: "length (top_of ss n m) = min (nat n) (length (filtered_of ss m))"
  by (simp add: top_of_def nlargest_def min.commute)

lemma top_of_all:
  "int (length (filtered_of ss m)) \<le> n \<Longrightarrow> mset (top_of ss n m) = mset (filtered_of ss m)"
  by (simp add: top_of_def nlargest_def)

lemma distinct_top_of: "distinct (filtered_of ss m) \<Longrightarrow> distinct (top_of ss n m)"
  by (simp add: top_of_def nlargest_def)

lemma top_of_stable:
  "prefix (filter (\<lambda>s. sentence_score (word_freq_of ss m) s = c) (top_of ss n m))
          (filter (\<lambda>s. sentence_score (word_freq_of ss m) s = c) (filtered_of ss m))"
proof -
  let ?sc = "sentence_score (word_freq_of ss m)"
  let ?sorted = "sort_key (\<lambda>x. - ?sc x) (filtered_of ss m)"
  have "prefix (filter (\<lambda>s. ?sc s = c) (take (nat n) ?sorted)) (filter (\<lambda>s. ?sc s = c) ?sorted)"
    by (rule filter_mono_prefix) (rule take_is_prefix)
  moreover have "filter (\<lambda>s. ?sc s = c) ?sorted = filter (\<lambda>s. ?sc s = c) (filtered_of ss m)"
    using sort_key_stable [of "\<lambda>x. - ?sc x" "- c" "filtered_of ss m"] by simp
  ultimately show ?thesis by (simp add: top_of_def nlargest_def)
qed

lemma sum_list_by_count:
  fixes f :: "'a \<Rightarrow> int"
  shows "sum_list (map f ws) = (\<Sum>w\<in>set ws. int (count_list ws w) * f w)"
proof (induction ws)
  case Nil
  then show ?case by simp
next
  case (Cons a ws)
  have "(\<Sum>w\<in>set (a # ws). int (count_list (a # ws) w) * f w) =
        (\<Sum>w\<in>insert a (set ws). (if w = a then f a else 0) + int (count_list ws w) * f w)"
    by (intro sum.cong) (auto simp: algebra_simps)
  also have "\<dots> = (\<Sum>w\<in>insert a (set ws). if w = a then f a else 0) +
                  (\<Sum>w\<in>insert a (set ws). int (count_list ws w) * f w)"
    by (rule sum.distrib)
  also have "(\<Sum>w\<in>insert a (set ws). if w = a then f a else 0) = f a"
    by simp
  also have "(\<Sum>w\<in>insert a (set ws). int (count_list ws w) * f w) =
             (\<Sum>w\<in>set ws. int (count_list ws w) * f w)"
    by (cases "a \<in> set ws") (simp_all add: insert_absorb)
  finally show ?case using Cons.IH by simp
qed

lemma NOT_ENOUGH_neq: "NOT_ENOUGH \<noteq> NO_FREQUENCIES"
  by (simp add: NOT_ENOUGH_def NO_FREQUENCIES_def)

lemma prefix_keeps_earlier:
  assumes d: "distinct F" and ij: "i < j" "j < length F"
    and P: "P (F ! i)" "P (F ! j)"
    and pre: "prefix T (filter P F)" and mem: "F ! j \<in> set T"
  shows "F ! i \<in> set T"
proof -
  define us where "us = take i F"
  define vs where "vs = drop (Suc i) F"
  have F: "F = us @ F ! i # vs"
    unfolding us_def vs_def using ij by (simp add: id_take_nth_drop)
  have yv: "F ! j \<in> set vs"
    unfolding vs_def using ij by (auto simp: in_set_conv_nth intro!: exI [of _ "j - Suc i"])
  have dd: "distinct (us @ F ! i # vs)"
    using d F by simp
  have yu: "F ! j \<notin> set us" and yx: "F ! j \<noteq> F ! i"
    using dd yv by auto
  have "filter P F = filter P us @ F ! i # filter P vs"
    using P(1) by (subst F) simp
  with pre have "prefix T (filter P us) \<or> (\<exists>T'. T = filter P us @ T' \<and> prefix T' (F ! i # filter P vs))"
    by (simp add: prefix_append)
  then show ?thesis
  proof
    assume "prefix T (filter P us)"
    then have "set T \<subseteq> set us"
      using set_mono_prefix by fastforce
    with mem yu show ?thesis by blast
  next
    assume "\<exists>T'. T = filter P us @ T' \<and> prefix T' (F ! i # filter P vs)"
    then obtain T' where T: "T = filter P us @ T'" and p: "prefix T' (F ! i # filter P vs)"
      by blast
    from mem yu T have "T' \<noteq> []" by auto
    with p have "hd T' = F ! i"
      by (cases T') (auto simp: prefix_Cons)
    with \<open>T' \<noteq> []\<close> T show ?thesis
      by (cases T') auto
  qed
qed

section \<open>Segmentation of normalized text\<close>

lemma cons_first_ne: "cons_first c ps \<noteq> []"
  by (cases ps) auto

lemma re_split_ne: "re_split_endings b s \<noteq> []"
  by (cases s) (simp_all add: cons_first_ne)

lemma join_Cons: "join sep (x # xs) = (if xs = [] then x else x @ sep @ join sep xs)"
  by (cases xs) auto

lemma join_cons_first: "ps \<noteq> [] \<Longrightarrow> join sep (cons_first c ps) = c # join sep ps"
  by (cases ps) (simp_all add: join_Cons)

lemma well_spaced_tl: "well_spaced (c # cs) \<Longrightarrow> well_spaced cs"
  by (cases cs) auto

lemma well_spaced_space: "well_spaced (c # cs) \<Longrightarrow> is_space c \<Longrightarrow> c = CHR '' '' \<and> cs \<noteq> [] \<and> \<not> is_space (hd cs)"
  by (cases cs) auto

lemma join_re_split: "well_spaced s \<Longrightarrow> join '' '' (re_split_endings b s) = s"
proof (induction b s rule: re_split_endings.induct)
  case (1 after_end)
  then show ?case by simp
next
  case (2 after_end c cs)
  show ?case
  proof (cases "after_end \<and> is_space c")
    case True
    with 2(3) have c: "c = CHR '' ''" and ne: "cs \<noteq> []" and h: "\<not> is_space (hd cs)"
      using well_spaced_space by blast+
    then have d: "dropWhile is_space cs = cs"
      by (cases cs) auto
    have "join '' '' (re_split_endings False cs) = cs"
      using 2(1) [OF True] 2(3) d well_spaced_tl by auto
    then show ?thesis using True c d by (simp add: join_Cons re_split_ne)
  next
    case False
    have "join '' '' (re_split_endings (is_sentence_end c) cs) = cs"
      using 2(2) [OF False] 2(3) well_spaced_tl by blast
    moreover have "re_split_endings after_end (c # cs) =
        cons_first c (re_split_endings (is_sentence_end c) cs)"
      using False by auto
    ultimately show ?thesis by (simp only: join_cons_first [OF re_split_ne])
  qed
qed


lemma sentence_end_not_space: "is_sentence_end c \<Longrightarrow> \<not> is_space c"
  by (auto simp: is_sentence_end_def is_space_def)

lemma well_spaced_last: "well_spaced s \<Longrightarrow> s \<noteq> [] \<Longrightarrow> \<not> is_space (last s)"
  by (induction s rule: well_spaced.induct) auto

lemma re_split_shape:
  "well_spaced s \<Longrightarrow> s \<noteq> [] \<Longrightarrow>
   (\<forall>p\<in>set (tl (re_split_endings b s)). good_piece p) \<and>
   (if b \<and> is_space (hd s) then hd (re_split_endings b s) = []
    else hd (re_split_endings b s) \<noteq> [] \<and> hd (hd (re_split_endings b s)) = hd s \<and>
         \<not> is_space (last (hd (re_split_endings b s))))"
proof (induction b s rule: re_split_endings.induct)
  case (1 after_end)
  then show ?case by simp
next
  case (2 after_end c cs)
  show ?case
  proof (cases "after_end \<and> is_space c")
    case True
    with 2(3) have c: "c = CHR '' ''" and ne: "cs \<noteq> []" and h: "\<not> is_space (hd cs)"
      using well_spaced_space by blast+
    then have d: "dropWhile is_space cs = cs"
      by (cases cs) auto
    let ?P = "re_split_endings False cs"
    have ih: "(\<forall>p\<in>set (tl ?P). good_piece p) \<and> hd ?P \<noteq> [] \<and> hd (hd ?P) = hd cs \<and>
        \<not> is_space (last (hd ?P))"
      using 2(1) [OF True] 2(3) d ne well_spaced_tl by auto
    have "good_piece (hd ?P)"
      using ih h by (simp add: good_piece_def)
    then have "\<forall>p\<in>set ?P. good_piece p"
      using ih re_split_ne [of False cs] by (cases ?P) auto
    then show ?thesis using True d by simp
  next
    case False
    let ?P = "re_split_endings (is_sentence_end c) cs"
    have eq: "re_split_endings after_end (c # cs) = cons_first c ?P"
      using False by auto
    show ?thesis
    proof (cases "cs = []")
      case True
      with 2(3) have "\<not> is_space c" by simp
      with True eq False show ?thesis by simp
    next
      case ne: False
      have ih: "(\<forall>p\<in>set (tl ?P). good_piece p) \<and>
         (if is_sentence_end c \<and> is_space (hd cs) then hd ?P = []
          else hd ?P \<noteq> [] \<and> hd (hd ?P) = hd cs \<and> \<not> is_space (last (hd ?P)))"
        using 2(2) [OF False] 2(3) ne well_spaced_tl by blast
      obtain p ps where P: "?P = p # ps"
        using re_split_ne [of "is_sentence_end c" cs] by (cases ?P) auto
      have "\<not> is_space (last (c # p))"
        using ih P sentence_end_not_space [of c] by (auto split: if_splits)
      then show ?thesis
        using ih P eq False by (auto split: if_splits)
    qed
  qed
qed

lemma strip_good: "good_piece p \<Longrightarrow> strip p = p"
proof -
  assume g: "good_piece p"
  then have 1: "dropWhile is_space p = p"
    by (cases p) (auto simp: good_piece_def)
  from g have "rev p \<noteq> [] \<and> \<not> is_space (hd (rev p))"
    by (simp add: good_piece_def hd_rev)
  then have "dropWhile is_space (rev p) = rev p"
    by (cases "rev p") auto
  with 1 show ?thesis by (simp add: strip_def)
qed

lemma normalized_split:
  assumes "normalized s" and "s \<noteq> []"
  shows "split_sentences s = re_split_endings False s"
    and "\<forall>p\<in>set (re_split_endings False s). good_piece p"
proof -
  let ?P = "re_split_endings False s"
  from assms have ws: "well_spaced s" and h: "\<not> is_space (hd s)"
    by (simp_all add: normalized_def)
  from re_split_shape [OF ws assms(2), of False] h
  have "\<forall>p\<in>set (tl ?P). good_piece p" and "good_piece (hd ?P)"
    by (simp_all add: good_piece_def)
  then show g: "\<forall>p\<in>set ?P. good_piece p"
    using re_split_ne [of False s] by (cases ?P) auto
  then have "filter (\<lambda>c. strip c \<noteq> []) ?P = ?P"
    by (auto simp: filter_id_conv strip_good good_piece_def)
  moreover have "map strip ?P = ?P"
    using g by (simp add: map_idI strip_good)
  ultimately show "split_sentences s = ?P"
    by (simp add: split_sentences_def)
qed

lemma single_spaced_Cons: "\<not> is_space c \<Longrightarrow> single_spaced cs \<Longrightarrow> single_spaced (c # cs)"
  by (cases cs) auto

lemma collapse_hd: "s \<noteq> [] \<Longrightarrow> \<not> is_space (hd s) \<Longrightarrow>
    collapse_ws s \<noteq> [] \<and> \<not> is_space (hd (collapse_ws s))"
  by (cases s) auto

lemma single_spaced_collapse: "single_spaced (collapse_ws s)"
proof (induction s rule: collapse_ws.induct)
  case 1
  then show ?case by simp
next
  case (2 c cs)
  show ?case
  proof (cases "is_space c")
    case True
    let ?r = "dropWhile is_space cs"
    have ih: "single_spaced (collapse_ws ?r)" using 2(1) True by simp
    show ?thesis
    proof (cases "?r = []")
      case True
      have "collapse_ws (c # cs) = CHR '' '' # collapse_ws ?r"
        using \<open>is_space c\<close> by simp
      then have "collapse_ws (c # cs) = [CHR '' '']"
        unfolding True by simp
      then show ?thesis by simp
    next
      case False
      then have "\<not> is_space (hd ?r)" by (simp add: hd_dropWhile)
      with False have "collapse_ws ?r \<noteq> [] \<and> \<not> is_space (hd (collapse_ws ?r))"
        by (rule collapse_hd)
      with ih \<open>is_space c\<close> show ?thesis
        by (cases "collapse_ws ?r") auto
    qed
  next
    case False
    with 2(2) show ?thesis by (simp add: single_spaced_Cons)
  qed
qed

lemma single_spaced_dropWhile: "single_spaced s \<Longrightarrow> single_spaced (dropWhile is_space s)"
  by (induction s rule: single_spaced.induct) auto

lemma single_spaced_well: "single_spaced s \<Longrightarrow> s = [] \<or> \<not> is_space (last s) \<Longrightarrow> well_spaced s"
  by (induction s rule: single_spaced.induct) auto

lemma single_spaced_snoc:
  "single_spaced (t @ [c]) \<Longrightarrow> single_spaced t \<and> (is_space c \<longrightarrow> t = [] \<or> \<not> is_space (last t))"
  by (induction t rule: single_spaced.induct) (auto split: if_splits)

lemma rstrip_single_spaced:
  "single_spaced s \<Longrightarrow> s \<noteq> [] \<Longrightarrow> \<not> is_space (hd s) \<Longrightarrow>
   normalized (rev (dropWhile is_space (rev s)))"
proof (cases s rule: rev_cases)
  case Nil
  then show ?thesis by (simp add: normalized_def)
next
  case (snoc t c)
  assume ss: "single_spaced s" and h: "\<not> is_space (hd s)"
  show ?thesis
  proof (cases "is_space c")
    case False
    then have "rev (dropWhile is_space (rev s)) = s" using snoc by simp
    moreover have "well_spaced s" using ss False snoc by (intro single_spaced_well) auto
    ultimately show ?thesis using h by (simp add: normalized_def)
  next
    case True
    from single_spaced_snoc [of t c] ss snoc True
    have t: "single_spaced t" and l: "t = [] \<or> \<not> is_space (last t)" by auto
    then have "dropWhile is_space (rev t) = rev t"
      by (cases t rule: rev_cases) auto
    then have eq: "rev (dropWhile is_space (rev s)) = t" using snoc True by simp
    have "well_spaced t" using t l by (rule single_spaced_well)
    moreover have "t \<noteq> [] \<longrightarrow> \<not> is_space (hd t)" using h snoc by (cases t) auto
    ultimately show ?thesis by (simp add: eq normalized_def)
  qed
qed

lemma normalized_cleaned: "normalized (strip (collapse_ws raw))"
proof -
  let ?s = "dropWhile is_space (collapse_ws raw)"
  have ss: "single_spaced ?s"
    by (simp add: single_spaced_collapse single_spaced_dropWhile)
  show ?thesis
  proof (cases "?s = []")
    case True
    have "strip (collapse_ws raw) = []"
      unfolding strip_def True by simp
    then show ?thesis by (simp add: normalized_def)
  next
    case False
    then have "\<not> is_space (hd ?s)" by (simp add: hd_dropWhile)
    with ss False show ?thesis unfolding strip_def by (rule rstrip_single_spaced)
  qed
qed

lemma collapse_well_spaced: "well_spaced s \<Longrightarrow> collapse_ws s = s"
  by (induction s rule: well_spaced.induct) auto

lemma normalized_iff: "normalized s \<longleftrightarrow> strip (collapse_ws s) = s"
proof
  assume n: "normalized s"
  then have c: "collapse_ws s = s"
    by (simp add: normalized_def collapse_well_spaced)
  show "strip (collapse_ws s) = s"
  proof (cases "s = []")
    case True
    then show ?thesis by (simp add: strip_def)
  next
    case False
    with n have "good_piece s"
      by (simp add: good_piece_def normalized_def well_spaced_last)
    then show ?thesis by (simp add: c strip_good)
  qed
next
  assume "strip (collapse_ws s) = s"
  then show "normalized s"
    using normalized_cleaned [of s] by simp
qed

section \<open>Cleaning and the body text\<close>

lemma space_is_space: "is_space CHR '' ''"
  by (simp add: is_space_def)

lemma all_dropWhile: "(\<forall>x\<in>set (dropWhile P xs). P x) \<longleftrightarrow> (\<forall>x\<in>set xs. P x)"
  by (induction xs) auto

lemma set_collapse_space:
  "(\<forall>c\<in>set (collapse_ws s). is_space c) \<longleftrightarrow> (\<forall>c\<in>set s. is_space c)"
proof (induction s rule: collapse_ws.induct)
  case 1
  then show ?case by simp
next
  case (2 c cs)
  show ?case
  proof (cases "is_space c")
    case True
    have "(\<forall>x\<in>set (dropWhile is_space cs). is_space x) \<longleftrightarrow> (\<forall>x\<in>set cs. is_space x)"
      by (rule all_dropWhile)
    with True 2(1) show ?thesis by (simp add: space_is_space del: dropWhile_eq_Nil_conv)
  next
    case False
    then show ?thesis by simp
  qed
qed

lemma strip_empty_iff: "strip s = [] \<longleftrightarrow> (\<forall>c\<in>set s. is_space c)"
proof -
  have "strip s = [] \<longleftrightarrow> (\<forall>c\<in>set (dropWhile is_space s). is_space c)"
    by (simp add: strip_def dropWhile_eq_Nil_conv)
  also have "\<dots> \<longleftrightarrow> (\<forall>c\<in>set s. is_space c)"
    by (rule all_dropWhile)
  finally show ?thesis .
qed

lemma cleaned_empty_iff: "strip (collapse_ws s) = [] \<longleftrightarrow> (\<forall>c\<in>set s. is_space c)"
  by (simp add: strip_empty_iff set_collapse_space)

lemma join_empties: "\<forall>s\<in>set xs. s = [] \<Longrightarrow> \<forall>c\<in>set (join '' '' xs). is_space c"
  by (induction xs) (auto simp: join_Cons space_is_space)

lemma body_text_eq:
  "spec_body_text soup =
     (if map (get_text '' '' True) (find_all [''p''] soup) = [] then get_text '' '' False soup
      else join '' '' (map (get_text '' '' True) (find_all [''p''] soup)))"
  by (auto simp: spec_body_text_def find_all_def get_text_def all_strings_def filter_empty_conv)


lemma extract_eq:
  "extract_sentences parse html =
     (if strip (collapse_ws (spec_body_text (soup_of parse html))) = []
      then Inl (ScraperError UNABLE)
      else Inr \<lparr>title = (case find_tag ''title'' (soup_of parse html) of
                     Some t \<Rightarrow> if node_text t \<noteq> [] then strip (node_text t) else UNTITLED
                   | None \<Rightarrow> UNTITLED),
                 sentences = split_sentences
                   (strip (collapse_ws (spec_body_text (soup_of parse html))))\<rparr>)"
  unfolding extract_sentences_def Let_def soup_of_def body_text_eq by (rule refl)


section \<open>Properties of the summarizer\<close>

subsection \<open>C1: the summary as a subsequence of the input\<close>

text \<open>
  C1, as stated, fails when a sentence string occurs at several input positions.  With
  input \<open>["Cats purr.", "Dogs bark.", "Cats purr."]\<close>, \<open>max_sentences = 3\<close> and
  \<open>min_chars = 0\<close> all three sentences are selected; the final sort keys both copies of
  \<open>"Cats purr."\<close> by position 0, the first occurrence, so the result is
  \<open>["Cats purr.", "Cats purr.", "Dogs bark."]\<close>, which is not a subsequence of the input.
\<close>

theorem summarize_not_subsequence:
  "summarize_sentences [''Cats purr.'', ''Dogs bark.'', ''Cats purr.''] 3 0 =
     Inr [''Cats purr.'', ''Cats purr.'', ''Dogs bark.''] \<and>
   \<not> subseq [''Cats purr.'', ''Cats purr.'', ''Dogs bark.'']
        [''Cats purr.'', ''Dogs bark.'', ''Cats purr.'']"
  by code_simp

text \<open>
  C1 (amended): whenever \<open>summarize_sentences\<close> returns a list \<open>out\<close> in which no sentence
  string occurs twice, \<open>out\<close> is a subsequence of the input: the positions of first
  occurrence of its elements are strictly increasing input positions whose elements are, in
  order, the elements of \<open>out\<close>.  This is the case in particular when no string of length
  at least \<open>min_chars\<close> occurs twice in the input.  No bound on \<open>max_sentences\<close> or
  \<open>min_chars\<close> is needed.
\<close>

theorem summarize_subsequence_distinct:
  assumes "summarize_sentences sents max_sentences min_chars = Inr out"
  shows "(distinct (filter (\<lambda>s. min_chars \<le> int (length s)) sents) \<longrightarrow> distinct out) \<and>
         (distinct out \<longrightarrow>
            subseq out sents \<and>
            (\<exists>ps. length ps = length out \<and> sorted_wrt (<) ps \<and>
                  (\<forall>p\<in>set ps. p < length sents) \<and> map ((!) sents) ps = out))"
proof (intro conjI impI)
  note out = summarize_Inr(1) [OF assms]
  have sub: "set out \<subseteq> set sents"
    using set_top_of [of sents max_sentences min_chars] set_filtered_of [of sents min_chars]
    by (auto simp: out)
  show "distinct out" if "distinct (filter (\<lambda>s. min_chars \<le> int (length s)) sents)"
    using that distinct_top_of [of sents min_chars max_sentences]
    by (simp add: out filtered_of_def)
  define ps where "ps = map (first_pos sents) out"
  assume d: "distinct out"
  have "sorted ps"
    by (simp add: ps_def out)
  moreover have "distinct ps"
    unfolding ps_def distinct_map using d sub first_pos_inj [of sents]
    by (auto intro: inj_on_subset)
  ultimately have 1: "sorted_wrt (<) ps"
    by (simp add: strict_sorted_iff)
  have 2: "\<forall>p\<in>set ps. p < length sents"
    using sub first_pos_nth [of _ sents] by (auto simp: ps_def)
  have 3: "map ((!) sents) ps = out"
    unfolding ps_def map_map using sub first_pos_nth [of _ sents]
    by (intro map_idI) auto
  have 4: "length ps = length out"
    by (simp add: ps_def)
  from positions_subseq [OF 1 2] 3 show "subseq out sents"
    by simp
  from 1 2 3 4 show "\<exists>ps. length ps = length out \<and> sorted_wrt (<) ps \<and>
      (\<forall>p\<in>set ps. p < length sents) \<and> map ((!) sents) ps = out"
    by blast
qed

theorem summarize_subsequence_distinct_witness:
  "summarize_sentences
     [''Cats are great pets.'', ''Dogs are great pets too.'', ''Rocks do nothing.''] 2 5
     = Inr [''Cats are great pets.'', ''Dogs are great pets too.''] \<and>
   subseq [''Cats are great pets.'', ''Dogs are great pets too.'']
     [''Cats are great pets.'', ''Dogs are great pets too.'', ''Rocks do nothing.'']"
proof -
  have e: "summarize_sentences
     [''Cats are great pets.'', ''Dogs are great pets too.'', ''Rocks do nothing.''] 2 5
     = Inr [''Cats are great pets.'', ''Dogs are great pets too.'']"
    by code_simp
  have d: "distinct [''Cats are great pets.'', ''Dogs are great pets too.'']"
    by simp
  from summarize_subsequence_distinct [OF e] d e show ?thesis
    by blast
qed

subsection \<open>C7: the length of the summary\<close>

text \<open>
  C7: when \<open>summarize_sentences\<close> returns \<open>out\<close>, its length is the smaller of
  \<open>max_sentences\<close> (taken as 0 when negative) and the number of filtered sentences; so for
  every \<open>max_sentences \<ge> 0\<close>, and in particular for the positive values of the interface,
  it is at most \<open>max_sentences\<close>.  When \<open>max_sentences\<close> is at least the number of filtered
  sentences, \<open>out\<close> holds exactly the filtered sentences, each as often as it is filtered.
\<close>

theorem summarize_length_and_all:
  assumes "summarize_sentences sents max_sentences min_chars = Inr out"
  shows "length out = min (nat max_sentences)
           (length (filter (\<lambda>s. min_chars \<le> int (length s)) sents)) \<and>
         (0 \<le> max_sentences \<longrightarrow> int (length out) \<le> max_sentences) \<and>
         (int (length (filter (\<lambda>s. min_chars \<le> int (length s)) sents)) \<le> max_sentences \<longrightarrow>
            mset out = mset (filter (\<lambda>s. min_chars \<le> int (length s)) sents))"
  using length_top_of [of sents max_sentences min_chars]
    top_of_all [of sents min_chars max_sentences]
  by (auto simp: summarize_Inr(1) [OF assms] filtered_of_def)

theorem summarize_length_and_all_witness:
  "length [''Cats purr.'', ''Dogs bark.''] =
     min (nat 5) (length (filter (\<lambda>s. 3 \<le> int (length s)) [''Cats purr.'', ''Hi'', ''Dogs bark.''])) \<and>
   int (length [''Cats purr.'', ''Dogs bark.'']) \<le> 5 \<and>
   mset [''Cats purr.'', ''Dogs bark.''] =
     mset (filter (\<lambda>s. 3 \<le> int (length s)) [''Cats purr.'', ''Hi'', ''Dogs bark.''])"
proof -
  have e: "summarize_sentences [''Cats purr.'', ''Hi'', ''Dogs bark.''] 5 3 =
      Inr [''Cats purr.'', ''Dogs bark.'']"
    by code_simp
  from summarize_length_and_all [OF e] show ?thesis
    by simp
qed

subsection \<open>C2: how words are counted and how sentences are scored\<close>

text \<open>
  C2: whatever the order in which the set of a sentence's words is visited, the table
  built by the first loop gives each word the number of filtered sentences whose tokens
  contain it (a word repeated inside one sentence adds 1), and 0 to every other word.  The
  score of a sentence is the sum of the table's values over all its tokens: every word
  contributes its table value once per occurrence.  The score dictionary holds this score
  for every filtered sentence.
\<close>

theorem word_freq_and_score:
  assumes "valid_iter iter"
  shows "counter_get (build_word_freq iter filtered) w =
           int (length (filter (\<lambda>s. w \<in> set (tokenize_sentence s)) filtered)) \<and>
         sentence_score word_freq s =
           (\<Sum>w\<in>set (tokenize_sentence s).
              int (count_list (tokenize_sentence s) w) * counter_get word_freq w) \<and>
         (s \<in> set filtered \<longrightarrow>
            Mapping.lookup (build_scores word_freq filtered) s = Some (sentence_score word_freq s))"
  by (simp add: build_word_freq_iter [OF assms] counter_get_build_word_freq
      sentence_score_def sum_list_by_count scores_get_filtered)

theorem word_freq_and_score_witness:
  "counter_get (build_word_freq remdups [''Fish fish fish swim.'', ''Fish jump.'']) ''fish'' = 2 \<and>
   sentence_score (build_word_freq remdups [''Fish fish fish swim.'', ''Fish jump.''])
     ''Fish fish fish swim.'' = 7"
proof -
  have t1: "tokenize_sentence ''Fish fish fish swim.'' = [''fish'', ''fish'', ''fish'', ''swim'']"
    by code_simp
  have t2: "tokenize_sentence ''Fish jump.'' = [''fish'', ''jump'']"
    by code_simp
  note th = word_freq_and_score [OF valid_iter_remdups,
      of "[''Fish fish fish swim.'', ''Fish jump.'']" _
         "build_word_freq remdups [''Fish fish fish swim.'', ''Fish jump.'']"
         "''Fish fish fish swim.''"]
  have f: "counter_get (build_word_freq remdups [''Fish fish fish swim.'', ''Fish jump.'']) ''fish'' = 2"
    using th [of "''fish''"] by (simp add: t1 t2)
  have s: "counter_get (build_word_freq remdups [''Fish fish fish swim.'', ''Fish jump.'']) ''swim'' = 1"
    using th [of "''swim''"] by (simp add: t1 t2)
  have "sentence_score (build_word_freq remdups [''Fish fish fish swim.'', ''Fish jump.''])
     ''Fish fish fish swim.'' = 7"
    using th [of "''fish''"] by (simp add: t1 f s)
  with f show ?thesis by simp
qed

subsection \<open>C3: determinism and stability of the selection\<close>

text \<open>
  C3: the result does not depend on the order in which Python visits the set of words of
  a sentence, the only place where the language leaves an order open, so equal inputs give
  equal outputs.  Among the filtered sentences of one score the selected ones are the
  earliest in filtered order: for every score \<open>c\<close> the returned sentences of score \<open>c\<close>
  are, as a multiset, an initial segment of the filtered sentences of score \<open>c\<close>.  When
  the filtered sentences are pairwise different strings this reads: if a filtered sentence
  is returned, every earlier filtered sentence of the same score is returned too.
\<close>

theorem selection_deterministic_stable:
  "(valid_iter iter \<longrightarrow>
      summarize_sentences_iter iter sents max_sentences min_chars =
      summarize_sentences sents max_sentences min_chars) \<and>
   (summarize_sentences sents max_sentences min_chars = Inr out \<longrightarrow>
      (\<forall>c. \<exists>k.
         mset (filter (\<lambda>s. sentence_score (word_freq_of sents min_chars) s = c) out) =
         mset (take k (filter (\<lambda>s. sentence_score (word_freq_of sents min_chars) s = c)
                        (filtered_of sents min_chars)))) \<and>
      (distinct (filtered_of sents min_chars) \<longrightarrow>
         (\<forall>i j. i < j \<and> j < length (filtered_of sents min_chars) \<and>
                sentence_score (word_freq_of sents min_chars) (filtered_of sents min_chars ! i) =
                sentence_score (word_freq_of sents min_chars) (filtered_of sents min_chars ! j) \<and>
                filtered_of sents min_chars ! j \<in> set out \<longrightarrow>
                filtered_of sents min_chars ! i \<in> set out)))"
proof (intro conjI impI allI)
  assume "valid_iter iter"
  then show "summarize_sentences_iter iter sents max_sentences min_chars =
      summarize_sentences sents max_sentences min_chars"
    by (simp add: summarize_iter_eq summarize_eq)
next
  fix c
  let ?sc = "sentence_score (word_freq_of sents min_chars)"
  let ?F = "filtered_of sents min_chars"
  let ?T = "top_of sents max_sentences min_chars"
  assume "summarize_sentences sents max_sentences min_chars = Inr out"
  then have out: "out = sort_key (first_pos sents) ?T"
    by (rule summarize_Inr(1))
  have "mset (filter (\<lambda>s. ?sc s = c) out) = mset (filter (\<lambda>s. ?sc s = c) ?T)"
    by (simp add: out)
  moreover have "filter (\<lambda>s. ?sc s = c) ?T =
      take (length (filter (\<lambda>s. ?sc s = c) ?T)) (filter (\<lambda>s. ?sc s = c) ?F)"
    using top_of_stable [of sents min_chars c max_sentences]
    by (metis append_eq_conv_conj prefixE)
  ultimately show "\<exists>k. mset (filter (\<lambda>s. ?sc s = c) out) = mset (take k (filter (\<lambda>s. ?sc s = c) ?F))"
    by metis
next
  fix i j
  let ?sc = "sentence_score (word_freq_of sents min_chars)"
  let ?F = "filtered_of sents min_chars"
  let ?T = "top_of sents max_sentences min_chars"
  assume "summarize_sentences sents max_sentences min_chars = Inr out"
  then have out: "out = sort_key (first_pos sents) ?T"
    by (rule summarize_Inr(1))
  assume d: "distinct ?F"
  assume a: "i < j \<and> j < length ?F \<and> ?sc (?F ! i) = ?sc (?F ! j) \<and> ?F ! j \<in> set out"
  define P where "P = (\<lambda>s. ?sc s = ?sc (?F ! j))"
  have pre: "prefix (filter P ?T) (filter P ?F)"
    unfolding P_def by (rule top_of_stable)
  have "?F ! j \<in> set (filter P ?T)"
    using a by (simp add: out P_def)
  from prefix_keeps_earlier [OF d _ _ _ _ pre this, of i] a
  have "?F ! i \<in> set (filter P ?T)"
    by (simp add: P_def)
  then show "?F ! i \<in> set out"
    by (simp add: out)
qed

theorem selection_deterministic_stable_witness:
  "summarize_sentences_iter (\<lambda>ws. rev (remdups ws)) [''Cats purr.'', ''Dogs bark.'', ''Cows moo.''] 2 0 =
     Inr [''Cats purr.'', ''Dogs bark.''] \<and>
   sentence_score (word_freq_of [''Cats purr.'', ''Dogs bark.'', ''Cows moo.''] 0) ''Cats purr.'' =
   sentence_score (word_freq_of [''Cats purr.'', ''Dogs bark.'', ''Cows moo.''] 0) ''Dogs bark.'' \<and>
   ''Dogs bark.'' \<in> set [''Cats purr.'', ''Dogs bark.''] \<and>
   ''Cats purr.'' \<in> set [''Cats purr.'', ''Dogs bark.'']"
proof -
  let ?S = "[''Cats purr.'', ''Dogs bark.'', ''Cows moo.'']"
  let ?out = "[''Cats purr.'', ''Dogs bark.'']"
  have v: "valid_iter (\<lambda>ws. rev (remdups ws))"
    by (simp add: valid_iter_def)
  have e: "summarize_sentences ?S 2 0 = Inr ?out"
    by code_simp
  have F: "filtered_of ?S 0 = ?S"
    by (simp add: filtered_of_def)
  have sc: "sentence_score (word_freq_of ?S 0) ''Cats purr.'' =
      sentence_score (word_freq_of ?S 0) ''Dogs bark.''"
    by code_simp
  note th = selection_deterministic_stable [of "\<lambda>ws. rev (remdups ws)" ?S 2 0 ?out]
  from th v e have 1: "summarize_sentences_iter (\<lambda>ws. rev (remdups ws)) ?S 2 0 = Inr ?out"
    by simp
  from th e have "distinct (filtered_of ?S 0) \<longrightarrow>
      (\<forall>i j. i < j \<and> j < length (filtered_of ?S 0) \<and>
         sentence_score (word_freq_of ?S 0) (filtered_of ?S 0 ! i) =
         sentence_score (word_freq_of ?S 0) (filtered_of ?S 0 ! j) \<and>
         filtered_of ?S 0 ! j \<in> set ?out \<longrightarrow>
         filtered_of ?S 0 ! i \<in> set ?out)"
    by blast
  then have "\<forall>i j. i < j \<and> j < length ?S \<and>
         sentence_score (word_freq_of ?S 0) (?S ! i) = sentence_score (word_freq_of ?S 0) (?S ! j) \<and>
         ?S ! j \<in> set ?out \<longrightarrow> ?S ! i \<in> set ?out"
    unfolding F by simp
  then have "0 < (1::nat) \<and> 1 < length ?S \<and>
         sentence_score (word_freq_of ?S 0) (?S ! 0) = sentence_score (word_freq_of ?S 0) (?S ! 1) \<and>
         ?S ! 1 \<in> set ?out \<longrightarrow> ?S ! 0 \<in> set ?out"
    by blast
  with 1 sc show ?thesis
    by simp
qed

subsection \<open>C4: when the summarizer fails\<close>

text \<open>
  C4: \<open>summarize_sentences\<close> raises \<open>ScraperError\<close> with the first message exactly when
  every input sentence is shorter than \<open>min_chars\<close>, and with the second message exactly
  when some sentence is long enough but no filtered sentence has a token left after
  stop-word filtering.  So it fails exactly when one of the two conditions holds, and it
  returns a summary exactly when some filtered sentence has a significant word.  The
  \<open>ValueError\<close> of \<open>list.index\<close> never arises.  A result is either an error or a
  summary, never both.
\<close>

theorem summarize_failure_cases:
  "(summarize_sentences ss n m = Inl (ScraperError NOT_ENOUGH) \<longleftrightarrow>
      (\<forall>s\<in>set ss. int (length s) < m)) \<and>
   (summarize_sentences ss n m = Inl (ScraperError NO_FREQUENCIES) \<longleftrightarrow>
      (\<exists>s\<in>set ss. m \<le> int (length s)) \<and>
      (\<forall>s\<in>set ss. m \<le> int (length s) \<longrightarrow> tokenize_sentence s = [])) \<and>
   ((\<exists>e. summarize_sentences ss n m = Inl e) \<longleftrightarrow>
      (\<forall>s\<in>set ss. int (length s) < m) \<or>
      (\<forall>s\<in>set ss. m \<le> int (length s) \<longrightarrow> tokenize_sentence s = [])) \<and>
   ((\<exists>out. summarize_sentences ss n m = Inr out) \<longleftrightarrow>
      (\<exists>s\<in>set ss. m \<le> int (length s) \<and> tokenize_sentence s \<noteq> [])) \<and>
   summarize_sentences ss n m \<noteq> Inl ValueError"
proof -
  have f: "filtered_of ss m = [] \<longleftrightarrow> (\<forall>s\<in>set ss. int (length s) < m)"
    by (auto simp: filtered_of_def filter_empty_conv)
  have t: "(\<forall>s\<in>set (filtered_of ss m). tokenize_sentence s = []) \<longleftrightarrow>
        (\<forall>s\<in>set ss. m \<le> int (length s) \<longrightarrow> tokenize_sentence s = [])"
    by (auto simp: filtered_of_def)
  show ?thesis
    unfolding summarize_eq f t using NOT_ENOUGH_neq by (auto simp: not_less)
qed

theorem summarize_failure_cases_witness:
  "summarize_sentences [''Hi'', ''It.''] 2 5 = Inl (ScraperError NOT_ENOUGH) \<and>
   summarize_sentences [''It is the 1.'', ''Hi''] 2 5 = Inl (ScraperError NO_FREQUENCIES) \<and>
   (\<exists>out. summarize_sentences [''Cats purr.'', ''It is.''] 1 5 = Inr out)"
proof -
  have t1: "tokenize_sentence ''It is the 1.'' = []" by code_simp
  have t2: "tokenize_sentence ''Cats purr.'' \<noteq> []" by code_simp
  have 1: "summarize_sentences [''Hi'', ''It.''] 2 5 = Inl (ScraperError NOT_ENOUGH)"
    using summarize_failure_cases [of "[''Hi'', ''It.'']" 2 5] by simp
  have 2: "summarize_sentences [''It is the 1.'', ''Hi''] 2 5 = Inl (ScraperError NO_FREQUENCIES)"
    using summarize_failure_cases [of "[''It is the 1.'', ''Hi'']" 2 5] t1 by simp
  have 3: "\<exists>out. summarize_sentences [''Cats purr.'', ''It is.''] 1 5 = Inr out"
    using summarize_failure_cases [of "[''Cats purr.'', ''It is.'']" 1 5] t2 by simp
  from 1 2 3 show ?thesis by blast
qed

subsection \<open>C9: sentences without significant words stay eligible\<close>

text \<open>
  C9: a filtered sentence \<open>s\<close> whose token list is empty (only stop words, or no letters
  at all) is skipped by the first loop only; it gets score 0, in the score dictionary
  too, and takes part in the selection.  If some filtered sentence \<open>t\<close> has a significant
  word and \<open>max_sentences\<close> is at least the number of filtered sentences, the call succeeds
  and \<open>s\<close> is in the summary.
\<close>

theorem stopword_sentence_kept:
  assumes "s \<in> set sents" and "min_chars \<le> int (length s)" and "tokenize_sentence s = []"
    and "t \<in> set sents" and "min_chars \<le> int (length t)" and "tokenize_sentence t \<noteq> []"
    and "int (length (filter (\<lambda>s. min_chars \<le> int (length s)) sents)) \<le> max_sentences"
  shows "\<exists>out. summarize_sentences sents max_sentences min_chars = Inr out \<and> s \<in> set out \<and>
           sentence_score
             (build_word_freq remdups (filter (\<lambda>s. min_chars \<le> int (length s)) sents)) s = 0 \<and>
           scores_get
             (build_scores
               (build_word_freq remdups (filter (\<lambda>s. min_chars \<le> int (length s)) sents))
               (filter (\<lambda>s. min_chars \<le> int (length s)) sents)) s = 0"
proof -
  let ?F = "filter (\<lambda>s. min_chars \<le> int (length s)) sents"
  have F: "filtered_of sents min_chars = ?F"
    by (simp add: filtered_of_def)
  have sF: "s \<in> set ?F" and tF: "t \<in> set ?F"
    using assms by simp_all
  have ne: "?F \<noteq> []"
    using sF by (metis empty_iff empty_set)
  have "\<not> (\<forall>s\<in>set ?F. tokenize_sentence s = [])"
    using tF assms(6) by blast
  then have out: "summarize_sentences sents max_sentences min_chars =
      Inr (sort_key (first_pos sents) (top_of sents max_sentences min_chars))"
    using ne by (simp add: summarize_eq F)
  have "mset (top_of sents max_sentences min_chars) = mset ?F"
    using top_of_all [of sents min_chars max_sentences] assms(7) by (simp add: F)
  then have "set (top_of sents max_sentences min_chars) = set ?F"
    by (rule mset_eq_setD)
  then have mem: "s \<in> set (sort_key (first_pos sents) (top_of sents max_sentences min_chars))"
    using sF by simp
  have sc: "sentence_score w s = 0" for w
    by (simp add: sentence_score_def assms(3))
  have "scores_get (build_scores w ?F) s = sentence_score w s" for w
    using scores_get_filtered [OF sF] by (simp add: scores_get_def)
  with out mem sc show ?thesis
    by simp
qed

theorem stopword_sentence_kept_witness:
  "summarize_sentences [''It is.'', ''Cats purr.''] 2 0 = Inr [''It is.'', ''Cats purr.''] \<and>
   sentence_score (build_word_freq remdups [''It is.'', ''Cats purr.'']) ''It is.'' = 0"
proof -
  have 1: "''It is.'' \<in> set [''It is.'', ''Cats purr.'']" by simp
  have 2: "(0::int) \<le> int (length ''It is.'')" by simp
  have 3: "tokenize_sentence ''It is.'' = []" by code_simp
  have 4: "''Cats purr.'' \<in> set [''It is.'', ''Cats purr.'']" by simp
  have 5: "(0::int) \<le> int (length ''Cats purr.'')" by simp
  have 6: "tokenize_sentence ''Cats purr.'' \<noteq> []" by code_simp
  have 7: "int (length (filter (\<lambda>s. 0 \<le> int (length s)) [''It is.'', ''Cats purr.''])) \<le> 2" by simp
  have e: "summarize_sentences [''It is.'', ''Cats purr.''] 2 0 = Inr [''It is.'', ''Cats purr.'']"
    by code_simp
  from stopword_sentence_kept [OF 1 2 3 4 5 6 7] e show ?thesis
    by simp
qed

section \<open>Properties of the segmenter\<close>

subsection \<open>C5: segmentation of normalized text\<close>

text \<open>
  C5: on the empty text \<open>split_sentences\<close> returns the empty list.  On a non-empty
  normalized text it returns no empty string, every returned sentence is free of leading
  and trailing whitespace, and joining the sentences with single spaces gives back the text
  itself (for normalized text, the text is its own whitespace normalization).  The text the
  extractor segments, \<open>strip (collapse_ws raw)\<close>, is always normalized.
\<close>

theorem split_sentences_normalized:
  "split_sentences [] = [] \<and>
   (normalized s \<and> s \<noteq> [] \<longrightarrow>
      [] \<notin> set (split_sentences s) \<and> join '' '' (split_sentences s) = s \<and>
      (\<forall>p\<in>set (split_sentences s). strip p = p)) \<and>
   normalized (strip (collapse_ws raw))"
proof (intro conjI impI)
  show "split_sentences [] = []"
    by (simp add: split_sentences_def strip_def)
next
  assume a: "normalized s \<and> s \<noteq> []"
  then have n: "normalized s" and ne: "s \<noteq> []" by simp_all
  note sp = normalized_split [OF n ne]
  show "[] \<notin> set (split_sentences s)"
    using sp by (auto simp: good_piece_def)
  show "join '' '' (split_sentences s) = s"
    using n by (simp add: sp(1) join_re_split normalized_def)
  show "\<forall>p\<in>set (split_sentences s). strip p = p"
    using sp by (simp add: strip_good)
next
  show "normalized (strip (collapse_ws raw))"
    by (rule normalized_cleaned)
qed

theorem split_sentences_normalized_witness:
  "normalized ''Hello world. How are you? Fine!'' \<and>
   split_sentences ''Hello world. How are you? Fine!'' =
     [''Hello world.'', ''How are you?'', ''Fine!''] \<and>
   join '' '' (split_sentences ''Hello world. How are you? Fine!'') =
     ''Hello world. How are you? Fine!''"
proof -
  have n: "normalized ''Hello world. How are you? Fine!''"
    by code_simp
  have e: "split_sentences ''Hello world. How are you? Fine!'' =
     [''Hello world.'', ''How are you?'', ''Fine!'']"
    by code_simp
  from split_sentences_normalized [of "''Hello world. How are you? Fine!''"] n e
  show ?thesis by simp
qed

section \<open>Properties of the extractor\<close>

text \<open>
  The parser is a parameter \<open>parse\<close> of \<open>extract_sentences\<close>: every statement below holds
  for whatever tree the parser builds from the HTML text.  The concrete trees are the ones
  \<open>lxml\<close> builds for the HTML texts given with them.
\<close>

subsection \<open>C6: the title of the page\<close>

text \<open>
  C6 says that the title is the trimmed text of the title element, and \<open>"Untitled page"\<close>
  whenever the element is absent or its trimmed text is empty, also for a title of
  whitespace only.  The source tests \<open>title_tag.text\<close> for emptiness before it is trimmed,
  so a title whose text is whitespace only is trimmed to the empty string and returned as
  such.  For \<open><title>&nbsp;</title><p>Hello.</p>\<close> the title text is the single character
  U+00A0, which \<open>str.strip\<close> removes: extraction succeeds with the empty title, not with
  \<open>"Untitled page"\<close>.
\<close>

theorem title_whitespace_only:
  "extract_sentences
     (\<lambda>html. Element ''[document]''
        [Element ''html''
          [Element ''head'' [Element ''title'' [Text [CHR 0xA0]]],
           Element ''body'' [Element ''p'' [Text ''Hello.'']]]])
     ''<title>&nbsp;</title><p>Hello.</p>''
   = Inr \<lparr>title = [], sentences = [''Hello.'']\<rparr>"
  by code_simp

subsection \<open>C8: body text, fallback and failure\<close>

text \<open>
  C8: the body text that \<open>extract_sentences\<close> cleans is \<open>spec_body_text\<close> of the tree left
  after the non-content elements are removed: the space-joined texts of its paragraph
  elements, and the text of the whole tree exactly when it has no paragraph element.
  Extraction fails, with \<open>ScraperError\<close> and the message of the extractor, exactly when
  that body text, with whitespace collapsed and trimmed, is empty, which is exactly when
  the body text has no character other than whitespace; it fails in no other way; and when
  it succeeds the sentences returned are \<open>split_sentences\<close> of the cleaned body text.
\<close>

theorem extract_body_text:
  "(extract_sentences parse html = Inl (ScraperError UNABLE) \<longleftrightarrow>
      strip (collapse_ws (spec_body_text (soup_of parse html))) = []) \<and>
   (strip (collapse_ws (spec_body_text (soup_of parse html))) = [] \<longleftrightarrow>
      (\<forall>c\<in>set (spec_body_text (soup_of parse html)). is_space c)) \<and>
   (\<forall>e. extract_sentences parse html = Inl e \<longrightarrow> e = ScraperError UNABLE) \<and>
   (\<forall>page. extract_sentences parse html = Inr page \<longrightarrow>
      sentences page =
        split_sentences (strip (collapse_ws (spec_body_text (soup_of parse html)))))"
  by (auto simp: extract_eq cleaned_empty_iff)

theorem extract_body_text_witness:
  "extract_sentences (\<lambda>html. Element ''[document]''
        [Element ''html'' [Element ''body'' [Element ''div'' [Text ''  One. Two!   '']]]]) ''''
     = Inr \<lparr>title = UNTITLED, sentences = [''One.'', ''Two!'']\<rparr> \<and>
   extract_sentences (\<lambda>html. Element ''[document]''
        [Element ''html'' [Element ''body''
           [Element ''script'' [Text ''var x;'']]]]) ''''
     = Inl (ScraperError UNABLE)"
proof -
  let ?p1 = "\<lambda>html::string. Element ''[document]''
        [Element ''html'' [Element ''body'' [Element ''div'' [Text ''  One. Two!   '']]]]"
  let ?p2 = "\<lambda>html::string. Element ''[document]''
        [Element ''html'' [Element ''body'' [Element ''script'' [Text ''var x;'']]]]"
  have t1: "extract_sentences ?p1 '''' = Inr \<lparr>title = UNTITLED, sentences = [''One.'', ''Two!'']\<rparr>"
    by code_simp
  have c2: "strip (collapse_ws (spec_body_text (soup_of ?p2 ''''))) = []"
    by code_simp
  have 2: "extract_sentences ?p2 '''' = Inl (ScraperError UNABLE)"
    by (rule extract_body_text [THEN conjunct1, THEN iffD2]) (rule c2)
  from t1 2 show ?thesis by (rule conjI)
qed

subsection \<open>C10: paragraphs without text\<close>

text \<open>
  C10, as stated, fails when the only paragraph elements of the HTML lie inside an element
  that the extractor removes before it collects paragraphs.  For
  \<open><form><p></p></form><div>Hello there.</div>\<close> the HTML contains one paragraph element
  and its text is empty; the \<open>form\<close> is removed with the paragraph in it, no paragraph is
  left, the text of the whole document is used, and extraction succeeds with the sentence
  \<open>"Hello there."\<close>.
\<close>

theorem paragraph_in_form_falls_back:
  "find_all [''p'']
     (Element ''[document]''
        [Element ''html'' [Element ''body''
           [Element ''form'' [Element ''p'' []], Element ''div'' [Text ''Hello there.'']]]])
     = [Element ''p'' []] \<and>
   get_text '' '' True (Element ''p'' []) = [] \<and>
   extract_sentences
     (parse_as (Element ''[document]''
        [Element ''html'' [Element ''body''
           [Element ''form'' [Element ''p'' []], Element ''div'' [Text ''Hello there.'']]]]))
     ''<form><p></p></form><div>Hello there.</div>''
     = Inr \<lparr>title = UNTITLED, sentences = [''Hello there.'']\<rparr>"
  by code_simp

text \<open>
  C10 (amended): if the document left after the non-content elements (\<open>script\<close>, \<open>style\<close>,
  \<open>noscript\<close>, \<open>header\<close>, \<open>footer\<close>, \<open>form\<close>) are removed has at least one paragraph
  element and the text of every such paragraph element is empty, extraction fails with
  \<open>ScraperError\<close> and the message of the extractor: the text of the whole document is not
  used, whatever text the other elements hold.  In the example the \<open>div\<close> holds
  \<open>"Hello there."\<close>, which is the text the fallback would have read.
\<close>

theorem empty_paragraphs_no_fallback:
  assumes "find_all [''p''] (soup_of parse html) \<noteq> []"
    and "\<forall>p\<in>set (find_all [''p''] (soup_of parse html)). get_text '' '' True p = []"
  shows "extract_sentences parse html = Inl (ScraperError UNABLE)"
proof -
  let ?ps = "map (get_text '' '' True) (find_all [''p''] (soup_of parse html))"
  have "spec_body_text (soup_of parse html) = join '' '' ?ps"
    using assms(1) by (simp add: body_text_eq)
  moreover have "\<forall>c\<in>set (join '' '' ?ps). is_space c"
    using assms(2) by (intro join_empties) auto
  ultimately show ?thesis
    by (simp add: extract_eq cleaned_empty_iff)
qed

theorem empty_paragraphs_no_fallback_witness:
  "extract_sentences (\<lambda>html. Element ''[document]''
        [Element ''html'' [Element ''body''
           [Element ''p'' [], Element ''div'' [Text ''Hello there.'']]]])
     ''<p></p><div>Hello there.</div>'' = Inl (ScraperError UNABLE) \<and>
   get_text '' '' False (soup_of (\<lambda>html. Element ''[document]''
        [Element ''html'' [Element ''body''
           [Element ''p'' [], Element ''div'' [Text ''Hello there.'']]]])
     ''<p></p><div>Hello there.</div>'') = ''Hello there.''"
proof -
  let ?p = "\<lambda>html::string. Element ''[document]''
        [Element ''html'' [Element ''body''
           [Element ''p'' [], Element ''div'' [Text ''Hello there.'']]]]"
  let ?h = "''<p></p><div>Hello there.</div>''"
  have f: "find_all [''p''] (soup_of ?p ?h) = [Element ''p'' []]"
    by code_simp
  have g: "get_text '' '' True (Element ''p'' []) = []"
    by code_simp
  have t: "get_text '' '' False (soup_of ?p ?h) = ''Hello there.''"
    by code_simp
  have "extract_sentences ?p ?h = Inl (ScraperError UNABLE)"
    by (rule empty_paragraphs_no_fallback) (simp_all add: f g)
  with t show ?thesis by simp
qed

end
